theory Spec2Isabelle
  imports Complex_Main "HOL-Library.AList"
begin

section \<open>Connection pump: opening the backend connection\<close>

text \<open>
  \<^verbatim>\<open>proxy\<close> in tcp.py first opens the backend connection in a retry loop (lines 91-102).
  One round of the loop awaits \<^verbatim>\<open>trio.open_tcp_stream\<close>; what that call produces is the
  environment's choice, so the loop is modelled as a function of the list of rounds the
  environment supplies. A round is the result of the connect attempt together with the
  value \<^verbatim>\<open>trio.current_time()\<close> would give at line 98 of that round. Times are seconds,
  as real numbers.
\<close>

datatype attempt =
    Stream nat          \<comment> \<open>the call returned a stream (named by a number)\<close>
  | OSError bool        \<comment> \<open>an OSError; the flag says whether its cause is a ConnectionRefusedError\<close>
  | Other_exception     \<comment> \<open>an exception that is not an OSError\<close>

datatype opened =
    Break nat           \<comment> \<open>the loop was left through \<^verbatim>\<open>else: break\<close> with this stream\<close>
  | Raise attempt       \<comment> \<open>the exception of this attempt left \<^verbatim>\<open>proxy\<close>\<close>

text \<open>
  The result is the list of sleeps performed (the argument of each \<^verbatim>\<open>trio.sleep\<close>) and the
  way the loop was left; \<open>None\<close> when the supplied rounds are used up and the loop is
  still running.
\<close>

fun connect_loop :: "real \<Rightarrow> (attempt \<times> real) list \<Rightarrow> (real list \<times> opened) option" where
  "connect_loop raise_after [] = None"
| "connect_loop raise_after ((a, t) # rest) =
     (case a of
        Stream outgoing \<Rightarrow> Some ([], Break outgoing)
      | Other_exception \<Rightarrow> Some ([], Raise a)
      | OSError refused \<Rightarrow>
          if \<not> refused then Some ([], Raise a)
          else if t > raise_after then Some ([], Raise a)
          else (case connect_loop raise_after rest of
                  None \<Rightarrow> None
                | Some (sleeps, r) \<Rightarrow> Some (1 / 10 # sleeps, r)))"

definition proxy_open :: "real \<Rightarrow> (attempt \<times> real) list \<Rightarrow> (real list \<times> opened) option" where
  "proxy_open entry attempts = connect_loop (entry + 20) attempts"

text \<open>A round that is refused while not more than 20 seconds have passed since entry.\<close>

definition refused_in_window :: "real \<Rightarrow> attempt \<times> real \<Rightarrow> bool" where
  "refused_in_window entry r = (fst r = OSError True \<and> snd r - entry \<le> 20)"

section \<open>Connection pump: the two one-way copies\<close>

text \<open>
  After the connection is open, \<^verbatim>\<open>proxy\<close> runs two \<^verbatim>\<open>one_way_proxy\<close> tasks in one nursery
  (tcp.py, lines 104-106), both holding the nursery's cancel scope. A task is suspended
  either in \<^verbatim>\<open>source.receive_some()\<close> or in \<^verbatim>\<open>sink.send_all(data)\<close>; the environment
  decides what each await produces. The model records every operation the code performs
  on a stream or on the scope.
\<close>

type_synonym bytes = "nat list"

datatype endpoint = Incoming | Outgoing

datatype effect =
    Send_all endpoint bytes     \<comment> \<open>\<^verbatim>\<open>send_all(data)\<close> on this endpoint has returned\<close>
  | Print_broken_pipe           \<comment> \<open>line 86\<close>
  | Cancel                      \<comment> \<open>\<^verbatim>\<open>cancel_scope.cancel()\<close>, line 87\<close>
  | Aclose endpoint             \<comment> \<open>the endpoint is closed\<close>

datatype copy_pc =
    Receive_some                \<comment> \<open>suspended at line 81\<close>
  | Send_all_pending bytes      \<comment> \<open>suspended at line 84\<close>
  | Returned                    \<comment> \<open>ran through line 87\<close>
  | Cancelled                   \<comment> \<open>left by the Cancelled exception delivered at its await\<close>
  | Propagated                  \<comment> \<open>left by an exception the function does not catch\<close>

datatype io =
    Data bytes                  \<comment> \<open>\<^verbatim>\<open>receive_some\<close> returns these bytes; the empty list is end of stream\<close>
  | Sent                        \<comment> \<open>\<^verbatim>\<open>send_all\<close> returns\<close>
  | BrokenResourceError
  | Other_error

fun other_end :: "endpoint \<Rightarrow> endpoint" where
  "other_end Incoming = Outgoing"
| "other_end Outgoing = Incoming"

text \<open>One resumption of \<^verbatim>\<open>one_way_proxy\<close> while its scope is not cancelled.\<close>

fun one_way_proxy :: "endpoint \<Rightarrow> copy_pc \<Rightarrow> io \<Rightarrow> (copy_pc \<times> effect list) option" where
  "one_way_proxy sink Receive_some (Data d) =
     (if d = [] then Some (Returned, [Cancel]) else Some (Send_all_pending d, []))"
| "one_way_proxy sink (Send_all_pending d) Sent = Some (Receive_some, [Send_all sink d])"
| "one_way_proxy sink Receive_some BrokenResourceError = Some (Returned, [Print_broken_pipe, Cancel])"
| "one_way_proxy sink (Send_all_pending d) BrokenResourceError =
     Some (Returned, [Print_broken_pipe, Cancel])"
| "one_way_proxy sink Receive_some Other_error = Some (Propagated, [])"
| "one_way_proxy sink (Send_all_pending d) Other_error = Some (Propagated, [])"
| "one_way_proxy sink pc i = None"

fun finished :: "copy_pc \<Rightarrow> bool" where
  "finished Returned = True"
| "finished Cancelled = True"
| "finished Propagated = True"
| "finished pc = False"

text \<open>
  The nursery of \<^verbatim>\<open>proxy\<close>: the task reading from each endpoint, whether the scope has been
  cancelled, and the operations performed so far.
\<close>

record pump =
  copy_from :: "endpoint \<Rightarrow> copy_pc"
  cancel_called :: bool
  effects :: "effect list"

definition pump_start :: pump where
  "pump_start = \<lparr>copy_from = (\<lambda>e. Receive_some), cancel_called = False, effects = []\<rparr>"

text \<open>
  The task reading from \<open>src\<close> is resumed with \<open>i\<close>. In a cancelled scope its await
  raises Cancelled, which \<^verbatim>\<open>one_way_proxy\<close> does not catch. An exception that leaves a
  task cancels the nursery's scope.
\<close>

definition pump_step :: "endpoint \<times> io \<Rightarrow> pump \<Rightarrow> pump option" where
  "pump_step ev p =
     (let src = fst ev; pc = copy_from p src in
      if finished pc then None
      else if cancel_called p then Some (p\<lparr>copy_from := (copy_from p)(src := Cancelled)\<rparr>)
      else (case one_way_proxy (other_end src) pc (snd ev) of
              None \<Rightarrow> None
            | Some (pc', effs) \<Rightarrow>
                Some (p\<lparr>copy_from := (copy_from p)(src := pc'),
                        cancel_called := (Cancel \<in> set effs \<or> pc' = Propagated),
                        effects := effects p @ effs\<rparr>)))"

fun pump_run :: "(endpoint \<times> io) list \<Rightarrow> pump \<Rightarrow> pump option" where
  "pump_run [] p = Some p"
| "pump_run (ev # evs) p = (case pump_step ev p of None \<Rightarrow> None | Some p' \<Rightarrow> pump_run evs p')"

text \<open>The nursery block is left, and \<^verbatim>\<open>proxy\<close> with it, once both tasks are finished.\<close>

definition proxy_left :: "pump \<Rightarrow> bool" where
  "proxy_left p = (finished (copy_from p Incoming) \<and> finished (copy_from p Outgoing))"

section \<open>Python values used by the service controller\<close>

text \<open>
  \<^verbatim>\<open>str(n)\<close> of a Python int: the decimal digits, most significant first, after a minus
  sign for a negative number.
\<close>

definition digit_char :: "nat \<Rightarrow> char" where
  "digit_char d = ''0123456789'' ! d"

fun str_nat :: "nat \<Rightarrow> string" where
  "str_nat n = (if n < 10 then [digit_char n] else str_nat (n div 10) @ [digit_char (n mod 10)])"

declare str_nat.simps [simp del]

definition str_int :: "int \<Rightarrow> string" where
  "str_int i = (if i < 0 then CHR ''-'' # str_nat (nat (- i)) else str_nat (nat i))"

text \<open>
  Reading a decimal integer back, as \<^verbatim>\<open>int(s)\<close> does for a string of ASCII digits with
  an optional minus sign; \<open>None\<close> where \<^verbatim>\<open>int\<close> raises ValueError.
\<close>

definition digit_val :: "char \<Rightarrow> nat option" where
  "digit_val c =
     (if c \<in> set ''0123456789''
      then Some (length (takeWhile (\<lambda>d. d \<noteq> c) ''0123456789'')) else None)"

fun nat_of_digits :: "nat \<Rightarrow> string \<Rightarrow> nat option" where
  "nat_of_digits acc [] = Some acc"
| "nat_of_digits acc (c # cs) =
     (case digit_val c of None \<Rightarrow> None | Some d \<Rightarrow> nat_of_digits (10 * acc + d) cs)"

definition int_of_str :: "string \<Rightarrow> int option" where
  "int_of_str s =
     (case s of
        [] \<Rightarrow> None
      | c # cs \<Rightarrow>
          if c = CHR ''-''
          then (if cs = [] then None else map_option (\<lambda>n. - int n) (nat_of_digits 0 cs))
          else map_option int (nat_of_digits 0 s))"

text \<open>
  A dict is an association list in insertion order; \<^verbatim>\<open>d[k] = v\<close> is \<^const>\<open>AList.update\<close>,
  which replaces the value of a key that is present and appends a new key.
  Lines 83-89 of service.py build the environment of the subprocess: the dict comprehension
  over \<^verbatim>\<open>self._port_map.items()\<close>, unpacked after \<^verbatim>\<open>self.env\<close>.
\<close>

definition port_vars :: "(int \<times> int) list \<Rightarrow> (string \<times> string) list" where
  "port_vars pm =
     fold (\<lambda>(port, alloc_port). AList.update (''PORT_'' @ str_int port) (str_int alloc_port)) pm []"

definition child_env :: "(string \<times> string) list \<Rightarrow> (int \<times> int) list \<Rightarrow> (string \<times> string) list" where
  "child_env base pm = fold (\<lambda>(k, v). AList.update k v) (port_vars pm) base"

section \<open>The service controller\<close>

text \<open>
  The \<^verbatim>\<open>Service\<close> object of service.py with the tasks that work on it: the run loop, the
  callers of \<^verbatim>\<open>use()\<close> and the shutdown timers. trio runs one task at a time and switches
  tasks only at an \<^verbatim>\<open>await\<close>, so a task is modelled by the place where it is suspended, and
  one transition runs a task from one await to the next. Which task is resumed next, what
  the operating system answers and how time passes are the environment's choices.

  A \<^verbatim>\<open>trio.Event\<close> object is named by a number; creating one takes the next unused number.
  A subprocess is named by the number of its launch.
\<close>

type_synonym event_ref = nat
type_synonym pid = nat

datatype run_loop_pc =
    Wait_wanted event_ref                   \<comment> \<open>line 58, waiting on this event\<close>
  | Sleep_until real                        \<comment> \<open>line 61, with this deadline\<close>
  | Get_ports "int list"                    \<comment> \<open>lines 77-79: the ports whose \<^verbatim>\<open>get_port\<close> child still runs\<close>
  | Open_process "(string \<times> string) list"   \<comment> \<open>line 93, with this \<^verbatim>\<open>env\<close> argument\<close>
  | Process_wait pid                        \<comment> \<open>line 109\<close>
  | Cleanup bool                            \<comment> \<open>line 111; the flag: an exception is waiting to be re-raised\<close>
  | Run_loop_raised                         \<comment> \<open>an exception has left \<^verbatim>\<open>_run_loop\<close>\<close>

datatype use_pc =
    Started_wait event_ref                  \<comment> \<open>line 143, waiting on this event\<close>
  | In_body                                 \<comment> \<open>line 146: the caller's block runs\<close>
  | Start_timer nat                         \<comment> \<open>line 156, waiting for this timer task to call \<^verbatim>\<open>started()\<close>\<close>
  | Use_left                                \<comment> \<open>the context manager has been left\<close>

datatype stop_pc =
    Stop_signalled pid real                 \<comment> \<open>line 164: waiting for this process until this deadline\<close>
  | Stop_killed pid pid                     \<comment> \<open>line 169: the process of line 164, the process killed\<close>
  | Stop_returned
  | Stop_raised                             \<comment> \<open>line 168 found \<^verbatim>\<open>self._process\<close> to be None\<close>

datatype timer_pc =
    Timer_spawned                           \<comment> \<open>created by \<^verbatim>\<open>nursery.start\<close>, not run yet\<close>
  | Wanted_wait event_ref real              \<comment> \<open>line 129: waiting on this event until this deadline\<close>
  | Timer_returned                          \<comment> \<open>line 131\<close>
  | Stopping stop_pc                        \<comment> \<open>line 135, inside \<^verbatim>\<open>stop()\<close>\<close>

datatype delivery = Send_signal pid int | Kill pid

record service =
  ports :: "int list"
  env :: "(string \<times> string) list"
  signal :: int
  service_wanted :: event_ref
  service_started :: event_ref
  process :: "pid option"
  port_map :: "(int \<times> int) list option"
  users :: int
  executable_last_started :: real
  events_set :: "event_ref set"             \<comment> \<open>the events on which \<^verbatim>\<open>set()\<close> has been called\<close>
  events_made :: nat                        \<comment> \<open>how many events have been created\<close>
  current_time :: real                      \<comment> \<open>\<^verbatim>\<open>trio.current_time()\<close>\<close>
  spawned :: nat                            \<comment> \<open>how many subprocesses have been spawned\<close>
  exited :: "pid set"
  run_loop :: run_loop_pc
  use_scopes :: "use_pc list"
  shutdown_timers :: "timer_pc list"
  launches :: "real list"                   \<comment> \<open>every value given to \<^verbatim>\<open>_executable_last_started\<close>, latest first\<close>
  delivered :: "delivery list"              \<comment> \<open>the signals sent, in order\<close>
  cleaned_up :: "pid option list"           \<comment> \<open>the process argument of every \<^verbatim>\<open>cleanup_dead_process\<close> call\<close>

text \<open>\<^verbatim>\<open>__init__\<close>, lines 35-45, at clock value \<open>t0\<close>; the class attributes give the rest.\<close>

definition init :: "int list \<Rightarrow> (string \<times> string) list \<Rightarrow> int \<Rightarrow> real \<Rightarrow> service" where
  "init ps e sig t0 =
     \<lparr>ports = ps, env = e, signal = sig, service_wanted = 0, service_started = 1,
      process = None, port_map = None, users = 0, executable_last_started = 0,
      events_set = {}, events_made = 2, current_time = t0, spawned = 0, exited = {},
      run_loop = Wait_wanted 0, use_scopes = [], shutdown_timers = [],
      launches = [], delivered = [], cleaned_up = []\<rparr>"
subsection \<open>The run loop\<close>

text \<open>
  The run loop is resumed from the await it is suspended in, when that await can return:
  the event waited on is set (line 58), the deadline has passed (line 61), every
  \<^verbatim>\<open>get_port\<close> child has finished (line 77), the subprocess has exited (line 109),
  \<^verbatim>\<open>cleanup_dead_process\<close> has returned (line 111). It then runs to its next await.
  The \<^verbatim>\<open>try\<close> of line 92 has a \<^verbatim>\<open>finally\<close> and no \<^verbatim>\<open>except\<close>: after the cleanup an
  exception of \<^verbatim>\<open>open_process\<close> goes on and leaves \<^verbatim>\<open>_run_loop\<close>.
\<close>

definition run_loop_resumes :: "service \<Rightarrow> service option" where
  "run_loop_resumes s =
     (case run_loop s of
        Wait_wanted w \<Rightarrow>
          if w \<in> events_set s
          then Some (s\<lparr>run_loop := Sleep_until (executable_last_started s + 10)\<rparr>)
          else None
      | Sleep_until deadline \<Rightarrow>
          if deadline \<le> current_time s
          then Some (s\<lparr>executable_last_started := current_time s,
                       launches := current_time s # launches s,
                       port_map := Some [],
                       run_loop := Get_ports (ports s)\<rparr>)
          else None
      | Get_ports pending \<Rightarrow>
          if pending = []
          then (case port_map s of
                  None \<Rightarrow> Some (s\<lparr>run_loop := Run_loop_raised\<rparr>)
                | Some pm \<Rightarrow> Some (s\<lparr>run_loop := Open_process (child_env (env s) pm)\<rparr>))
          else None
      | Open_process e \<Rightarrow> None
      | Process_wait p \<Rightarrow>
          if p \<in> exited s
          then Some (s\<lparr>cleaned_up := cleaned_up s @ [process s], run_loop := Cleanup False\<rparr>)
          else None
      | Cleanup raising \<Rightarrow>
          if raising then Some (s\<lparr>run_loop := Run_loop_raised\<rparr>)
          else Some (s\<lparr>process := None,
                       service_started := events_made s,
                       events_made := Suc (events_made s),
                       run_loop := Wait_wanted (service_wanted s)\<rparr>)
      | Run_loop_raised \<Rightarrow> None)"

text \<open>
  \<^verbatim>\<open>get_free_port\<close> (lines 173-178) binds a socket to port 0, reads the port the operating
  system assigned, closes the socket and returns the port: nothing stays reserved. The
  operating system's answer is the argument \<open>r\<close>: \<open>Some a\<close> with a TCP port number \<open>a\<close>
  between 1 and 65535, or \<open>None\<close> when the bind raises. The child \<^verbatim>\<open>get_port\<close> of
  line 75 then stores the port; an exception leaves the nursery and the run loop.
\<close>

definition get_port_returns :: "int \<Rightarrow> int option \<Rightarrow> service \<Rightarrow> service option" where
  "get_port_returns port_to_map r s =
     (case run_loop s of
        Get_ports pending \<Rightarrow>
          if port_to_map \<in> set pending
          then (case r of
                  None \<Rightarrow> Some (s\<lparr>run_loop := Run_loop_raised\<rparr>)
                | Some alloc_port \<Rightarrow>
                    if 1 \<le> alloc_port \<and> alloc_port \<le> 65535
                    then (case port_map s of
                            None \<Rightarrow> Some (s\<lparr>run_loop := Run_loop_raised\<rparr>)
                          | Some pm \<Rightarrow>
                              Some (s\<lparr>port_map := Some (AList.update port_to_map alloc_port pm),
                                      run_loop := Get_ports (remove1 port_to_map pending)\<rparr>))
                    else None)
          else None
      | _ \<Rightarrow> None)"

text \<open>\<^verbatim>\<open>trio.open_process\<close> returns a new process (lines 93-109) or raises (line 111).\<close>

definition open_process_returns :: "bool \<Rightarrow> service \<Rightarrow> service option" where
  "open_process_returns ok s =
     (case run_loop s of
        Open_process e \<Rightarrow>
          if ok
          then Some (s\<lparr>process := Some (spawned s),
                       spawned := Suc (spawned s),
                       events_set := insert (service_started s) (events_set s),
                       run_loop := Process_wait (spawned s)\<rparr>)
          else Some (s\<lparr>cleaned_up := cleaned_up s @ [process s], run_loop := Cleanup True\<rparr>)
      | _ \<Rightarrow> None)"

subsection \<open>The context manager \<^verbatim>\<open>use\<close>\<close>

text \<open>A caller enters \<^verbatim>\<open>use()\<close> and runs to the await of line 143.\<close>

definition use_enters :: "service \<Rightarrow> service option" where
  "use_enters s =
     Some (s\<lparr>events_set := insert (service_wanted s) (events_set s),
             use_scopes := use_scopes s @ [Started_wait (service_started s)]\<rparr>)"

text \<open>
  Scope \<open>n\<close> is resumed: from line 143, once the event is set, it counts itself and yields
  to the caller's block; from line 156, once the timer task has called
  \<^verbatim>\<open>task_status.started()\<close>, it is left.
\<close>

definition use_resumes :: "nat \<Rightarrow> service \<Rightarrow> service option" where
  "use_resumes n s =
     (if n < length (use_scopes s)
      then (case use_scopes s ! n of
              Started_wait e \<Rightarrow>
                if e \<in> events_set s
                then Some (s\<lparr>users := users s + 1, use_scopes := (use_scopes s)[n := In_body]\<rparr>)
                else None
            | Start_timer t \<Rightarrow>
                if t < length (shutdown_timers s) \<and> shutdown_timers s ! t \<noteq> Timer_spawned
                then Some (s\<lparr>use_scopes := (use_scopes s)[n := Use_left]\<rparr>)
                else None
            | _ \<Rightarrow> None)
      else None)"

text \<open>A scope waiting at line 143 is cancelled: the \<^verbatim>\<open>try\<close> of line 145 is not entered.\<close>

definition use_cancelled :: "nat \<Rightarrow> service \<Rightarrow> service option" where
  "use_cancelled n s =
     (if n < length (use_scopes s)
      then (case use_scopes s ! n of
              Started_wait e \<Rightarrow> Some (s\<lparr>use_scopes := (use_scopes s)[n := Use_left]\<rparr>)
            | _ \<Rightarrow> None)
      else None)"

text \<open>
  The caller's block of scope \<open>n\<close> ends, by running through or by an exception: the
  \<^verbatim>\<open>finally\<close> of lines 147-156 runs. \<^verbatim>\<open>nursery.start\<close> creates the timer task and
  suspends the caller until that task has called \<^verbatim>\<open>started()\<close>.
\<close>

definition body_ends :: "nat \<Rightarrow> service \<Rightarrow> service option" where
  "body_ends n s =
     (if n < length (use_scopes s) \<and> use_scopes s ! n = In_body
      then (if users s - 1 = 0
            then Some (s\<lparr>users := users s - 1,
                         shutdown_timers := shutdown_timers s @ [Timer_spawned],
                         use_scopes := (use_scopes s)[n := Start_timer (length (shutdown_timers s))]\<rparr>)
            else Some (s\<lparr>users := users s - 1, use_scopes := (use_scopes s)[n := Use_left]\<rparr>))
      else None)"

subsection \<open>The method \<^verbatim>\<open>stop\<close>\<close>

text \<open>The call of \<^verbatim>\<open>stop()\<close> up to its first await (lines 160-164), or to its end.\<close>

definition stop :: "service \<Rightarrow> stop_pc \<times> service" where
  "stop s =
     (case process s of
        None \<Rightarrow> (Stop_returned, s)
      | Some p \<Rightarrow>
          (Stop_signalled p (current_time s + 5),
           s\<lparr>delivered := delivered s @ [Send_signal p (signal s)]\<rparr>))"

text \<open>
  The await of \<^verbatim>\<open>self._process.wait()\<close> in \<^verbatim>\<open>stop()\<close> returns (line 164 or line 169),
  and \<^verbatim>\<open>stop()\<close> with it. \<^verbatim>\<open>trio.Process.wait\<close> lets one task at a time wait for the
  process and serves the callers in the order of their calls; the run loop has been
  waiting since line 109. So \<^verbatim>\<open>stop()\<close> is resumed only when the process has exited and
  the run loop has been resumed from its own wait on it.
\<close>

definition stop_resumes :: "stop_pc \<Rightarrow> service \<Rightarrow> (stop_pc \<times> service) option" where
  "stop_resumes pc s =
     (case pc of
        Stop_signalled p deadline \<Rightarrow>
          if p \<in> exited s \<and> run_loop s \<noteq> Process_wait p then Some (Stop_returned, s) else None
      | Stop_killed p q \<Rightarrow>
          if q \<in> exited s \<and> run_loop s \<noteq> Process_wait q then Some (Stop_returned, s) else None
      | _ \<Rightarrow> None)"

text \<open>
  The 5 seconds of line 161 are over: lines 167-169, which read \<^verbatim>\<open>self._process\<close> again.
\<close>

definition stop_times_out :: "stop_pc \<Rightarrow> service \<Rightarrow> (stop_pc \<times> service) option" where
  "stop_times_out pc s =
     (case pc of
        Stop_signalled p deadline \<Rightarrow>
          if deadline \<le> current_time s
          then (case process s of
                  None \<Rightarrow> Some (Stop_raised, s)
                | Some q \<Rightarrow> Some (Stop_killed p q, s\<lparr>delivered := delivered s @ [Kill q]\<rparr>))
          else None
      | _ \<Rightarrow> None)"

subsection \<open>The shutdown timer\<close>

text \<open>
  Timer task \<open>n\<close> is resumed. Its first run (lines 123-129) calls
  \<^verbatim>\<open>task_status.started()\<close>, replaces \<^verbatim>\<open>_service_wanted\<close> by a new event and waits on
  it for at most 600 seconds.
\<close>

definition shutdown_timer_resumes :: "nat \<Rightarrow> service \<Rightarrow> service option" where
  "shutdown_timer_resumes n s =
     (if n < length (shutdown_timers s)
      then (case shutdown_timers s ! n of
              Timer_spawned \<Rightarrow>
                Some (s\<lparr>service_wanted := events_made s,
                        events_made := Suc (events_made s),
                        shutdown_timers := (shutdown_timers s)
                          [n := Wanted_wait (events_made s) (current_time s + 600)]\<rparr>)
            | Wanted_wait w deadline \<Rightarrow>
                if w \<in> events_set s
                then Some (s\<lparr>shutdown_timers := (shutdown_timers s)[n := Timer_returned]\<rparr>)
                else None
            | Timer_returned \<Rightarrow> None
            | Stopping pc \<Rightarrow>
                (case stop_resumes pc s of
                   None \<Rightarrow> None
                 | Some (pc', s') \<Rightarrow>
                     Some (s'\<lparr>shutdown_timers := (shutdown_timers s')[n := Stopping pc']\<rparr>)))
      else None)"

text \<open>The deadline of the \<^verbatim>\<open>move_on_after\<close> block timer task \<open>n\<close> is waiting in has passed.\<close>

definition shutdown_timer_times_out :: "nat \<Rightarrow> service \<Rightarrow> service option" where
  "shutdown_timer_times_out n s =
     (if n < length (shutdown_timers s)
      then (case shutdown_timers s ! n of
              Wanted_wait w deadline \<Rightarrow>
                if deadline \<le> current_time s
                then (case stop s of
                        (pc, s') \<Rightarrow>
                          Some (s'\<lparr>shutdown_timers := (shutdown_timers s')[n := Stopping pc]\<rparr>))
                else None
            | Stopping pc \<Rightarrow>
                (case stop_times_out pc s of
                   None \<Rightarrow> None
                 | Some (pc', s') \<Rightarrow>
                     Some (s'\<lparr>shutdown_timers := (shutdown_timers s')[n := Stopping pc']\<rparr>))
            | _ \<Rightarrow> None)
      else None)"

subsection \<open>The environment and whole runs\<close>

definition clock_advances :: "real \<Rightarrow> service \<Rightarrow> service option" where
  "clock_advances t s = (if current_time s \<le> t then Some (s\<lparr>current_time := t\<rparr>) else None)"

definition process_exits :: "pid \<Rightarrow> service \<Rightarrow> service option" where
  "process_exits p s =
     (if p < spawned s \<and> p \<notin> exited s then Some (s\<lparr>exited := insert p (exited s)\<rparr>) else None)"

datatype action =
    Clock real
  | Process_exits pid
  | Run_loop
  | Get_port int "int option"
  | Open_process_result bool
  | Use_enters
  | Use_resumes nat
  | Use_cancelled nat
  | Body_ends nat
  | Timer_resumes nat
  | Timer_times_out nat

text \<open>One transition; \<open>None\<close> when it cannot happen in this state.\<close>

fun step :: "action \<Rightarrow> service \<Rightarrow> service option" where
  "step (Clock t) s = clock_advances t s"
| "step (Process_exits p) s = process_exits p s"
| "step Run_loop s = run_loop_resumes s"
| "step (Get_port p r) s = get_port_returns p r s"
| "step (Open_process_result ok) s = open_process_returns ok s"
| "step Use_enters s = use_enters s"
| "step (Use_resumes n) s = use_resumes n s"
| "step (Use_cancelled n) s = use_cancelled n s"
| "step (Body_ends n) s = body_ends n s"
| "step (Timer_resumes n) s = shutdown_timer_resumes n s"
| "step (Timer_times_out n) s = shutdown_timer_times_out n s"

fun run :: "action list \<Rightarrow> service \<Rightarrow> service option" where
  "run [] s = Some s"
| "run (e # es) s = (case step e s of None \<Rightarrow> None | Some s' \<Rightarrow> run es s')"

lemmas step_defs = run_loop_resumes_def get_port_returns_def open_process_returns_def
  use_enters_def use_resumes_def use_cancelled_def body_ends_def stop_def stop_resumes_def
  stop_times_out_def shutdown_timer_resumes_def shutdown_timer_times_out_def clock_advances_def process_exits_def

section \<open>The retry policy of the backend connection\<close>

lemma connect_loop_retries:
  "\<forall>r \<in> set pre. fst r = OSError True \<and> snd r \<le> ra \<Longrightarrow>
   connect_loop ra (pre @ rest) =
     (case connect_loop ra rest of
        None \<Rightarrow> None
      | Some (sleeps, r) \<Rightarrow> Some (replicate (length pre) (1 / 10) @ sleeps, r))"
proof (induction pre)
  case Nil
  then show ?case by (simp split: option.splits)
next
  case (Cons x pre)
  obtain a t where x: "x = (a, t)" by (cases x)
  from Cons.prems have a: "a = OSError True" and t: "\<not> ra < t" by (simp_all add: x)
  from Cons.prems have "\<forall>r \<in> set pre. fst r = OSError True \<and> snd r \<le> ra" by simp
  then show ?case using Cons.IH by (simp add: x a t split: option.splits)
qed

text \<open>
  C6. However many refused attempts inside the 20 second window come first, each of them is
  followed by a sleep of 0.1 s and another attempt; a refused attempt after the window
  raises, an OSError whose cause is not a refusal raises at the attempt that produces it.
  While all attempts are refused inside the window the loop keeps running.
\<close>

theorem proxy_open_retry_policy:
  "\<forall>r \<in> set pre. refused_in_window entry r \<Longrightarrow>
   proxy_open entry pre = None \<and>
   (20 < t - entry \<longrightarrow>
      proxy_open entry (pre @ (OSError True, t) # rest)
        = Some (replicate (length pre) (1 / 10), Raise (OSError True))) \<and>
   proxy_open entry (pre @ (OSError False, t) # rest)
     = Some (replicate (length pre) (1 / 10), Raise (OSError False)) \<and>
   proxy_open entry (pre @ (Stream outgoing, t) # rest)
     = Some (replicate (length pre) (1 / 10), Break outgoing)"
proof -
  assume "\<forall>r \<in> set pre. refused_in_window entry r"
  then have pre: "\<forall>r \<in> set pre. fst r = OSError True \<and> snd r \<le> entry + 20"
    by (auto simp: refused_in_window_def)
  have "proxy_open entry pre = None"
    using connect_loop_retries [OF pre, of "[]"] by (simp add: proxy_open_def)
  moreover have "proxy_open entry (pre @ (OSError True, t) # rest)
          = Some (replicate (length pre) (1 / 10), Raise (OSError True))" if "20 < t - entry"
    using that connect_loop_retries [OF pre, of "(OSError True, t) # rest"]
    by (simp add: proxy_open_def)
  moreover have "proxy_open entry (pre @ (OSError False, t) # rest)
          = Some (replicate (length pre) (1 / 10), Raise (OSError False))"
    using connect_loop_retries [OF pre, of "(OSError False, t) # rest"]
    by (simp add: proxy_open_def)
  moreover have "proxy_open entry (pre @ (Stream outgoing, t) # rest)
          = Some (replicate (length pre) (1 / 10), Break outgoing)"
    using connect_loop_retries [OF pre, of "(Stream outgoing, t) # rest"]
    by (simp add: proxy_open_def)
  ultimately show ?thesis by blast
qed

theorem proxy_open_retry_policy_witness:
  "proxy_open 100 [(OSError True, 101), (OSError True, 120)] = None \<and>
   proxy_open 100 [(OSError True, 101), (OSError True, 120), (OSError True, 120.5)]
     = Some ([1 / 10, 1 / 10], Raise (OSError True)) \<and>
   proxy_open 100 [(OSError True, 101), (OSError True, 120), (OSError False, 120.5)]
     = Some ([1 / 10, 1 / 10], Raise (OSError False)) \<and>
   proxy_open 100 [(OSError True, 101), (OSError True, 120), (Stream 7, 120.5)]
     = Some ([1 / 10, 1 / 10], Break 7)"
  using proxy_open_retry_policy
    [of "[(OSError True, 101), (OSError True, 120)]" 100 "120.5" "[]" 7]
  by (simp add: refused_in_window_def numeral_2_eq_2)

section \<open>Cancellation in the copy phase\<close>

lemma one_way_proxy_no_close:
  "one_way_proxy sink pc i = Some (pc', effs) \<Longrightarrow> Aclose e \<notin> set effs"
  by (cases "(sink, pc, i)" rule: one_way_proxy.cases) (auto split: if_splits)

lemma pump_step_no_close:
  "pump_step ev p = Some p' \<Longrightarrow> Aclose e \<notin> set (effects p) \<Longrightarrow> Aclose e \<notin> set (effects p')"
  by (auto simp: pump_step_def Let_def split: if_splits option.splits
           dest: one_way_proxy_no_close)

lemma pump_run_no_close:
  "pump_run evs p = Some p' \<Longrightarrow> Aclose e \<notin> set (effects p) \<Longrightarrow> Aclose e \<notin> set (effects p')"
proof (induction evs arbitrary: p)
  case Nil
  then show ?case by simp
next
  case (Cons ev evs)
  then show ?case by (auto split: option.splits dest: pump_step_no_close)
qed

lemma one_way_proxy_eof_or_broken:
  "one_way_proxy sink pc i = Some (pc', effs) \<Longrightarrow> i = Data [] \<or> i = BrokenResourceError \<Longrightarrow>
   pc' = Returned \<and> Cancel \<in> set effs"
  by (cases "(sink, pc, i)" rule: one_way_proxy.cases) (auto split: if_splits)

text \<open>
  C7, as the code has it. A task that sees end of stream or BrokenResourceError returns
  after cancelling the shared scope; in a cancelled scope the next resumption of the
  other task ends it, and then \<^verbatim>\<open>proxy\<close> is left; no run of the two tasks closes an
  endpoint.
\<close>

theorem pump_cancels_both_closes_none:
  assumes "pump_step (src, i) p = Some p'" and "\<not> cancel_called p"
    and "i = Data [] \<or> i = BrokenResourceError"
    and "pump_step (other_end src, j) p' = Some p''"
    and "pump_run evs pump_start = Some q"
  shows "copy_from p' src = Returned \<and> cancel_called p' \<and>
         copy_from p'' (other_end src) = Cancelled \<and> proxy_left p'' \<and>
         Aclose e \<notin> set (effects q)"
proof -
  from assms(1,2) obtain pc' effs where
    owp: "one_way_proxy (other_end src) (copy_from p src) i = Some (pc', effs)"
    and p': "p' = p\<lparr>copy_from := (copy_from p)(src := pc'),
                    cancel_called := (Cancel \<in> set effs \<or> pc' = Propagated),
                    effects := effects p @ effs\<rparr>"
    by (auto simp: pump_step_def Let_def split: if_splits option.splits)
  from one_way_proxy_eof_or_broken [OF owp assms(3)]
  have r: "pc' = Returned" "Cancel \<in> set effs"
    by simp_all
  have a: "copy_from p' src = Returned \<and> cancel_called p'" by (simp add: p' r)
  have b: "copy_from p'' (other_end src) = Cancelled \<and> proxy_left p''"
    using assms(4)
    by (cases src) (auto simp: pump_step_def Let_def proxy_left_def p' r split: if_splits)
  have c: "Aclose e \<notin> set (effects q)"
    using pump_run_no_close [OF assms(5), of e] by (simp add: pump_start_def)
  from a b c show ?thesis by blast
qed

theorem pump_cancels_both_closes_none_witness:
  "copy_from (the (pump_step (Incoming, BrokenResourceError) pump_start)) Incoming = Returned \<and>
   cancel_called (the (pump_step (Incoming, BrokenResourceError) pump_start)) \<and>
   copy_from (the (pump_run [(Incoming, BrokenResourceError), (Outgoing, Data [104])] pump_start))
     Outgoing = Cancelled \<and>
   proxy_left (the (pump_run [(Incoming, BrokenResourceError), (Outgoing, Data [104])] pump_start)) \<and>
   Aclose Outgoing \<notin> set (effects
     (the (pump_run [(Incoming, BrokenResourceError), (Outgoing, Data [104])] pump_start)))"
proof -
  let ?p' = "the (pump_step (Incoming, BrokenResourceError) pump_start)"
  let ?q = "the (pump_run [(Incoming, BrokenResourceError), (Outgoing, Data [104])] pump_start)"
  have s: "pump_step (Incoming, BrokenResourceError) pump_start = Some ?p'"
    by (simp add: pump_step_def pump_start_def)
  have n: "\<not> cancel_called pump_start" by (simp add: pump_start_def)
  have i: "BrokenResourceError = Data [] \<or> BrokenResourceError = BrokenResourceError" by simp
  have t: "pump_step (other_end Incoming, Data [104]) ?p' = Some ?q"
    by (simp add: pump_step_def pump_start_def)
  have r: "pump_run [(Incoming, BrokenResourceError), (Outgoing, Data [104])] pump_start = Some ?q"
    by (simp add: pump_step_def pump_start_def)
  from pump_cancels_both_closes_none [OF s n i t r, of Outgoing] show ?thesis by simp
qed

text \<open>
  The client sends nothing and closes: the task reading from the client sees end of
  stream, the other task is cancelled, \<^verbatim>\<open>proxy\<close> is left, and the only operation performed
  was the cancellation: neither endpoint has been closed.
\<close>

theorem pump_leaves_endpoints_open:
  "map_option (\<lambda>p. (proxy_left p, effects p, Aclose Incoming \<in> set (effects p),
                     Aclose Outgoing \<in> set (effects p)))
     (pump_run [(Incoming, Data []), (Outgoing, Data [104, 105])] pump_start)
     = Some (True, [Cancel], False, False)"
  by (simp add: pump_step_def pump_start_def proxy_left_def)

section \<open>Invariants of the service controller\<close>

lemma run_invariant:
  assumes "run as s = Some s'" and "I s"
    and "\<And>a s s'. I s \<Longrightarrow> step a s = Some s' \<Longrightarrow> I s'"
  shows "I s'"
  using assms(1,2)
proof (induction as arbitrary: s)
  case Nil
  then show ?case by simp
next
  case (Cons a as)
  then show ?case by (auto split: option.splits intro: assms(3))
qed

lemma run_append:
  "run (as @ bs) s = (case run as s of None \<Rightarrow> None | Some s' \<Rightarrow> run bs s')"
  by (induction as arbitrary: s) (auto split: option.splits)

subsection \<open>The user count\<close>

definition users_counted :: "service \<Rightarrow> bool" where
  "users_counted s = (users s = int (count_list (use_scopes s) In_body))"

lemma count_list_update:
  "n < length xs \<Longrightarrow>
   int (count_list (xs[n := v]) a)
     = int (count_list xs a) - (if xs ! n = a then 1 else 0) + (if v = a then 1 else 0)"
proof (induction xs arbitrary: n)
  case Nil
  then show ?case by simp
next
  case (Cons x xs)
  show ?case
  proof (cases n)
    case 0
    then show ?thesis by simp
  next
    case (Suc m)
    with Cons.prems have "m < length xs" by simp
    from Cons.IH [OF this] Suc show ?thesis by (auto split: if_splits)
  qed
qed

lemma users_counted_step:
  "users_counted s \<Longrightarrow> step a s = Some s' \<Longrightarrow> users_counted s'"
proof (cases a)
  case (Use_resumes n)
  then show "users_counted s \<Longrightarrow> step a s = Some s' \<Longrightarrow> users_counted s'"
    by (auto simp: users_counted_def use_resumes_def count_list_update
             split: if_splits use_pc.splits)
next
  case (Use_cancelled n)
  then show "users_counted s \<Longrightarrow> step a s = Some s' \<Longrightarrow> users_counted s'"
    by (auto simp: users_counted_def use_cancelled_def count_list_update
             split: if_splits use_pc.splits)
next
  case (Body_ends n)
  then show "users_counted s \<Longrightarrow> step a s = Some s' \<Longrightarrow> users_counted s'"
    by (auto simp: users_counted_def body_ends_def count_list_update split: if_splits)
qed (auto simp: users_counted_def step_defs
          split: if_splits option.splits run_loop_pc.splits timer_pc.splits stop_pc.splits)

text \<open>
  C9. In every state the controller can reach, by any interleaving of any number of
  \<^verbatim>\<open>use()\<close> scopes with the run loop, the timers and the environment, \<^verbatim>\<open>_users\<close> is the
  number of scopes whose caller's block is running: a scope is counted from the moment it
  has passed the await on the started event until its block ends, and never otherwise.
  So the count is never negative.
\<close>

theorem users_never_negative:
  "run as (init ps e sig t0) = Some s \<Longrightarrow>
   0 \<le> users s \<and> users s = int (count_list (use_scopes s) In_body)"
proof -
  assume r: "run as (init ps e sig t0) = Some s"
  have "users_counted (init ps e sig t0)" by (simp add: users_counted_def init_def)
  with r have "users_counted s" by (rule run_invariant) (rule users_counted_step)
  then show ?thesis by (simp add: users_counted_def)
qed

theorem users_never_negative_witness:
  "run [Use_enters, Use_enters, Run_loop, Clock 10, Run_loop, Run_loop, Open_process_result True,
        Use_resumes 1, Use_resumes 0, Body_ends 1] (init [] [] 2 0) \<noteq> None \<and>
   users (the (run [Use_enters, Use_enters, Run_loop, Clock 10, Run_loop, Run_loop,
                    Open_process_result True, Use_resumes 1, Use_resumes 0, Body_ends 1]
                 (init [] [] 2 0))) = 1"
proof -
  have r: "run [Use_enters, Use_enters, Run_loop, Clock 10, Run_loop, Run_loop,
                Open_process_result True, Use_resumes 1, Use_resumes 0, Body_ends 1]
             (init [] [] 2 0)
           = Some (the (run [Use_enters, Use_enters, Run_loop, Clock 10, Run_loop, Run_loop,
                Open_process_result True, Use_resumes 1, Use_resumes 0, Body_ends 1]
             (init [] [] 2 0)))"
    by (simp add: step_defs init_def child_env_def port_vars_def)
  from users_never_negative [OF r] r show ?thesis
    by (simp add: step_defs init_def child_env_def port_vars_def)
qed

subsection \<open>Stopping without a process\<close>

text \<open>
  C10. \<^verbatim>\<open>stop()\<close> called while \<^verbatim>\<open>self._process\<close> is None returns at once and leaves the
  whole state as it was: no field of the controller changes and no signal is sent.
\<close>

theorem stop_without_process:
  "process s = None \<Longrightarrow> stop s = (Stop_returned, s)"
  by (simp add: stop_def)

theorem stop_without_process_witness:
  "process (init [8080] [] 2 0) = None \<and>
   stop (init [8080] [] 2 0) = (Stop_returned, init [8080] [] 2 0)"
proof -
  have p: "process (init [8080] [] 2 0) = None" by (simp add: init_def)
  from stop_without_process [OF p] p show ?thesis by simp
qed

subsection \<open>Events are new when created\<close>

definition events_fresh :: "service \<Rightarrow> bool" where
  "events_fresh s =
     (service_wanted s < events_made s \<and> service_started s < events_made s \<and>
      service_wanted s \<noteq> service_started s \<and> (\<forall>e \<in> events_set s. e < events_made s))"

lemma events_fresh_init: "events_fresh (init ps e sig t0)"
  by (simp add: events_fresh_def init_def)

lemma events_fresh_step:
  "events_fresh s \<Longrightarrow> step a s = Some s' \<Longrightarrow> events_fresh s'"
  by (cases a)
     (auto simp: events_fresh_def step_defs less_Suc_eq
           split: if_splits option.splits run_loop_pc.splits use_pc.splits timer_pc.splits
                  stop_pc.splits)

subsection \<open>What holds at each await of the run loop\<close>

definition ports_allocated :: "service \<Rightarrow> int list \<Rightarrow> (int \<times> int) list \<Rightarrow> bool" where
  "ports_allocated s pending pm =
     (port_map s = Some pm \<and> distinct (map fst pm) \<and>
      fst ` set pm \<union> set pending = set (ports s) \<and>
      (\<forall>a \<in> snd ` set pm. 1 \<le> a \<and> a \<le> 65535))"

definition idle :: "service \<Rightarrow> bool" where
  "idle s = (process s = None \<and> service_started s \<notin> events_set s)"

definition loop_inv :: "service \<Rightarrow> bool" where
  "loop_inv s =
     (case run_loop s of
        Wait_wanted w \<Rightarrow> idle s
      | Sleep_until d \<Rightarrow> idle s \<and> d = executable_last_started s + 10
      | Get_ports pending \<Rightarrow> idle s \<and> (\<exists>pm. ports_allocated s pending pm)
      | Open_process e \<Rightarrow>
          idle s \<and> (\<exists>pm. ports_allocated s [] pm \<and> e = child_env (env s) pm)
      | Process_wait p \<Rightarrow>
          process s = Some p \<and> p < spawned s \<and> (\<exists>pm. ports_allocated s [] pm)
      | Cleanup raising \<Rightarrow>
          if raising then idle s
          else (\<exists>p. process s = Some p \<and> p < spawned s \<and> p \<in> exited s) \<and>
               (\<exists>pm. ports_allocated s [] pm)
      | Run_loop_raised \<Rightarrow> idle s)"

lemma snd_set_update:
  "snd ` set (AList.update k v al) \<subseteq> insert v (snd ` set al)"
  by (induction al) auto

lemma ports_allocated_update:
  assumes "ports_allocated s pending pm" and "p \<in> set pending"
    and "1 \<le> a" and "a \<le> 65535"
  shows "ports_allocated
           (s\<lparr>port_map := Some (AList.update p a pm), run_loop := Get_ports (remove1 p pending)\<rparr>)
           (remove1 p pending) (AList.update p a pm)"
proof -
  have "fst ` set (AList.update p a pm) \<union> set (remove1 p pending) = fst ` set pm \<union> set pending"
    using assms(2) by (auto simp: dom_update in_set_remove1 dest: notin_set_remove1)
  moreover have old: "\<forall>b \<in> snd ` set pm. 1 \<le> b \<and> b \<le> 65535"
    using assms(1) unfolding ports_allocated_def by blast
  have "\<forall>b \<in> snd ` set (AList.update p a pm). 1 \<le> b \<and> b \<le> 65535"
    using snd_set_update [of p a pm] old assms(3,4) by blast
  moreover note this
  ultimately show ?thesis
    using assms(1) unfolding ports_allocated_def by (simp add: distinct_update)
qed

lemma loop_inv_init: "loop_inv (init ps e sig t0)"
  by (simp add: loop_inv_def idle_def init_def)

lemma loop_inv_run_loop:
  "events_fresh s \<Longrightarrow> loop_inv s \<Longrightarrow> run_loop_resumes s = Some s' \<Longrightarrow> loop_inv s'"
  by (auto simp: loop_inv_def idle_def events_fresh_def ports_allocated_def run_loop_resumes_def
           split: if_splits option.splits run_loop_pc.splits)

lemma loop_inv_get_port:
  "loop_inv s \<Longrightarrow> get_port_returns p r s = Some s' \<Longrightarrow> loop_inv s'"
proof -
  assume inv: "loop_inv s" and st: "get_port_returns p r s = Some s'"
  from st obtain pending where pc: "run_loop s = Get_ports pending" and p: "p \<in> set pending"
    by (auto simp: get_port_returns_def split: run_loop_pc.splits if_splits)
  from inv pc obtain pm where i: "idle s" and pa: "ports_allocated s pending pm"
    by (auto simp: loop_inv_def)
  then have pm: "port_map s = Some pm" by (simp add: ports_allocated_def)
  show ?thesis
  proof (cases r)
    case None
    with st pc p i show ?thesis
      by (auto simp: get_port_returns_def loop_inv_def idle_def)
  next
    case (Some a)
    with st pc p pm have a: "1 \<le> a" "a \<le> 65535"
      and s': "s' = s\<lparr>port_map := Some (AList.update p a pm),
                       run_loop := Get_ports (remove1 p pending)\<rparr>"
      by (auto simp: get_port_returns_def split: if_splits)
    from ports_allocated_update [OF pa p a] i show ?thesis
      by (auto simp: s' loop_inv_def idle_def)
  qed
qed

lemma loop_inv_open_process:
  "events_fresh s \<Longrightarrow> loop_inv s \<Longrightarrow> open_process_returns ok s = Some s' \<Longrightarrow> loop_inv s'"
  by (auto simp: loop_inv_def idle_def ports_allocated_def open_process_returns_def
           split: if_splits run_loop_pc.splits)

lemma loop_inv_frame:
  assumes "loop_inv s"
    and "run_loop s' = run_loop s" and "process s' = process s"
    and "service_started s' = service_started s" and "port_map s' = port_map s"
    and "ports s' = ports s" and "env s' = env s" and "spawned s' = spawned s"
    and "executable_last_started s' = executable_last_started s"
    and "exited s \<subseteq> exited s'"
    and "events_set s' = events_set s \<or>
         events_set s' = insert (service_wanted s) (events_set s) \<and>
         service_wanted s \<noteq> service_started s"
  shows "loop_inv s'"
  using assms
  by (auto simp: loop_inv_def idle_def ports_allocated_def split: run_loop_pc.splits if_splits)

lemma loop_inv_step:
  assumes "events_fresh s" and "loop_inv s" and "step a s = Some s'"
  shows "loop_inv s'"
proof (cases a)
  case Run_loop
  with assms show ?thesis by (auto intro: loop_inv_run_loop)
next
  case (Get_port p r)
  with assms show ?thesis by (auto intro: loop_inv_get_port)
next
  case (Open_process_result ok)
  with assms show ?thesis by (auto intro: loop_inv_open_process)
next
  case (Clock t)
  with assms(3) have "s' = s\<lparr>current_time := t\<rparr>"
    by (auto simp: clock_advances_def split: if_splits)
  with assms(2) show ?thesis by (auto intro: loop_inv_frame)
next
  case (Process_exits p)
  with assms(3) have "s' = s\<lparr>exited := insert p (exited s)\<rparr>"
    by (auto simp: process_exits_def split: if_splits)
  with assms(2) show ?thesis by (auto intro: loop_inv_frame)
next
  case Use_enters
  with assms(3) have "s' = s\<lparr>events_set := insert (service_wanted s) (events_set s),
             use_scopes := use_scopes s @ [Started_wait (service_started s)]\<rparr>"
    by (auto simp: use_enters_def)
  with assms(1,2) show ?thesis by (auto simp: events_fresh_def intro: loop_inv_frame)
next
  case (Use_resumes n)
  with assms(3) show ?thesis
    by (auto simp: use_resumes_def split: if_splits use_pc.splits
             intro!: loop_inv_frame [OF assms(2)])
next
  case (Use_cancelled n)
  with assms(3) show ?thesis
    by (auto simp: use_cancelled_def split: if_splits use_pc.splits
             intro!: loop_inv_frame [OF assms(2)])
next
  case (Body_ends n)
  with assms(3) show ?thesis
    by (auto simp: body_ends_def split: if_splits intro!: loop_inv_frame [OF assms(2)])
next
  case (Timer_resumes n)
  with assms(3) show ?thesis
    by (auto simp: shutdown_timer_resumes_def stop_resumes_def
             split: if_splits option.splits timer_pc.splits stop_pc.splits
             intro!: loop_inv_frame [OF assms(2)])
next
  case (Timer_times_out n)
  with assms(3) show ?thesis
    by (auto simp: shutdown_timer_times_out_def stop_times_out_def stop_def
             split: if_splits option.splits timer_pc.splits stop_pc.splits
             intro!: loop_inv_frame [OF assms(2)])
qed

definition controller_inv :: "service \<Rightarrow> bool" where
  "controller_inv s = (events_fresh s \<and> loop_inv s)"

lemma controller_inv_run:
  "run as (init ps e sig t0) = Some s \<Longrightarrow> controller_inv s"
proof -
  assume r: "run as (init ps e sig t0) = Some s"
  have "controller_inv (init ps e sig t0)"
    by (simp add: controller_inv_def events_fresh_init loop_inv_init)
  with r show ?thesis
    by (rule run_invariant)
       (auto simp: controller_inv_def intro: events_fresh_step loop_inv_step)
qed

subsection \<open>The started event\<close>

text \<open>
  C4. In every reachable state in which the event held in \<^verbatim>\<open>_service_started\<close> is set,
  \<^verbatim>\<open>_port_map\<close> is a dict whose keys are exactly the ports of the descriptor (a dict
  holds one entry per key) and \<^verbatim>\<open>_process\<close> is a process that has been spawned: the
  event is set only after the nursery of line 77 has collected a port for every entry of
  \<^verbatim>\<open>ports\<close> and \<^verbatim>\<open>open_process\<close> has returned, and it is replaced by a new, unset
  event in the same step that clears \<^verbatim>\<open>_process\<close>.
\<close>

theorem started_implies_ports_and_process:
  "run as (init ps e sig t0) = Some s \<Longrightarrow> service_started s \<in> events_set s \<Longrightarrow>
   (\<exists>pm. port_map s = Some pm \<and> distinct (map fst pm) \<and> fst ` set pm = set (ports s)) \<and>
   (\<exists>p. process s = Some p \<and> p < spawned s)"
proof -
  assume r: "run as (init ps e sig t0) = Some s" and st: "service_started s \<in> events_set s"
  from controller_inv_run [OF r] have "loop_inv s" by (simp add: controller_inv_def)
  with st show ?thesis
    by (cases "run_loop s")
       (auto simp: loop_inv_def idle_def ports_allocated_def split: if_splits)
qed

theorem started_implies_ports_and_process_witness:
  "service_started
     (the (run [Use_enters, Run_loop, Clock 10, Run_loop, Get_port 8081 (Some 50001),
                Get_port 8080 (Some 50000), Run_loop, Open_process_result True]
             (init [8080, 8081] [] 2 0)))
   \<in> events_set
     (the (run [Use_enters, Run_loop, Clock 10, Run_loop, Get_port 8081 (Some 50001),
                Get_port 8080 (Some 50000), Run_loop, Open_process_result True]
             (init [8080, 8081] [] 2 0))) \<and>
   (\<exists>pm. port_map
      (the (run [Use_enters, Run_loop, Clock 10, Run_loop, Get_port 8081 (Some 50001),
                 Get_port 8080 (Some 50000), Run_loop, Open_process_result True]
              (init [8080, 8081] [] 2 0))) = Some pm \<and>
      distinct (map fst pm) \<and> fst ` set pm = {8080, 8081}) \<and>
   (\<exists>p. process
      (the (run [Use_enters, Run_loop, Clock 10, Run_loop, Get_port 8081 (Some 50001),
                 Get_port 8080 (Some 50000), Run_loop, Open_process_result True]
              (init [8080, 8081] [] 2 0))) = Some p \<and> p < 1)"
proof -
  let ?as = "[Use_enters, Run_loop, Clock 10, Run_loop, Get_port 8081 (Some 50001),
              Get_port 8080 (Some 50000), Run_loop, Open_process_result True]"
  let ?s = "the (run ?as (init [8080, 8081] [] 2 0))"
  have r: "run ?as (init [8080, 8081] [] 2 0) = Some ?s"
    by (simp add: step_defs init_def)
  have st: "service_started ?s \<in> events_set ?s"
    by (simp add: step_defs init_def)
  have sp: "spawned ?s = 1" and ps: "set (ports ?s) = {8080, 8081}"
    by (simp_all add: step_defs init_def)
  from started_implies_ports_and_process [OF r st] st sp ps show ?thesis
    by simp
qed

subsection \<open>Ten seconds between launches\<close>

definition launch_spaced :: "service \<Rightarrow> bool" where
  "launch_spaced s =
     (successively (\<lambda>later earlier. earlier + 10 \<le> later) (launches s) \<and>
      (launches s = [] \<or> hd (launches s) = executable_last_started s))"

lemma launch_spaced_run_loop:
  "loop_inv s \<Longrightarrow> launch_spaced s \<Longrightarrow> run_loop_resumes s = Some s' \<Longrightarrow> launch_spaced s'"
  by (auto simp: loop_inv_def launch_spaced_def run_loop_resumes_def successively_Cons
           split: if_splits option.splits run_loop_pc.splits)

lemma launch_spaced_step:
  "loop_inv s \<Longrightarrow> launch_spaced s \<Longrightarrow> step a s = Some s' \<Longrightarrow> launch_spaced s'"
proof (cases a)
  case Run_loop
  then show "loop_inv s \<Longrightarrow> launch_spaced s \<Longrightarrow> step a s = Some s' \<Longrightarrow> launch_spaced s'"
    by (auto intro: launch_spaced_run_loop)
qed (auto simp: launch_spaced_def get_port_returns_def open_process_returns_def use_enters_def
          use_resumes_def use_cancelled_def body_ends_def stop_def stop_resumes_def
          stop_times_out_def shutdown_timer_resumes_def shutdown_timer_times_out_def clock_advances_def
          process_exits_def
          split: if_splits option.splits run_loop_pc.splits use_pc.splits timer_pc.splits
                 stop_pc.splits)

lemma launch_spaced_run:
  "run as (init ps e sig t0) = Some s \<Longrightarrow> launch_spaced s"
proof -
  assume r: "run as (init ps e sig t0) = Some s"
  have "launch_spaced (init ps e sig t0)"
    by (simp add: launch_spaced_def init_def)
  then have "controller_inv (init ps e sig t0) \<and> launch_spaced (init ps e sig t0)"
    by (simp add: controller_inv_def events_fresh_init loop_inv_init)
  with r have "controller_inv s \<and> launch_spaced s"
    by (rule run_invariant)
       (auto simp: controller_inv_def
             intro: events_fresh_step loop_inv_step launch_spaced_step)
  then show ?thesis by simp
qed

text \<open>
  C5. \<^verbatim>\<open>launches\<close> lists every value line 62 has given to
  \<^verbatim>\<open>_executable_last_started\<close>, the latest first. In every reachable state each of them
  is at least 10 seconds after the one before it, whatever the callers of \<^verbatim>\<open>use()\<close>, the
  subprocess and the clock do.
\<close>

theorem launches_ten_seconds_apart:
  "run as (init ps e sig t0) = Some s \<Longrightarrow>
   successively (\<lambda>later earlier. earlier + 10 \<le> later) (launches s)"
  using launch_spaced_run [of as ps e sig t0 s] by (simp add: launch_spaced_def)

theorem launches_ten_seconds_apart_witness:
  "launches
     (the (run [Use_enters, Run_loop, Clock 3, Clock 12, Run_loop, Run_loop,
                Open_process_result True, Process_exits 0, Run_loop, Run_loop, Run_loop,
                Clock 25, Run_loop]
             (init [] [] 2 0))) = [25, 12] \<and>
   successively (\<lambda>later earlier. earlier + 10 \<le> later)
     (launches
        (the (run [Use_enters, Run_loop, Clock 3, Clock 12, Run_loop, Run_loop,
                   Open_process_result True, Process_exits 0, Run_loop, Run_loop, Run_loop,
                   Clock 25, Run_loop]
                (init [] [] 2 0))))"
proof -
  let ?as = "[Use_enters, Run_loop, Clock 3, Clock 12, Run_loop, Run_loop,
              Open_process_result True, Process_exits 0, Run_loop, Run_loop, Run_loop,
              Clock 25, Run_loop]"
  let ?s = "the (run ?as (init [] [] 2 0))"
  have r: "run ?as (init [] [] 2 0) = Some ?s"
    by (simp add: step_defs init_def child_env_def port_vars_def)
  have l: "launches ?s = [25, 12]"
    by (simp add: step_defs init_def child_env_def port_vars_def)
  from launches_ten_seconds_apart [OF r] l show ?thesis by blast
qed

subsection \<open>A failing spawn\<close>

lemma raised_stays:
  "run_loop s = Run_loop_raised \<Longrightarrow> step a s = Some s' \<Longrightarrow>
   run_loop s' = Run_loop_raised \<and> launches s' = launches s \<and> spawned s' = spawned s"
  by (cases a)
     (auto simp: step_defs
           split: if_splits option.splits use_pc.splits timer_pc.splits stop_pc.splits)

lemma raised_stays_run:
  "run as s = Some s' \<Longrightarrow> run_loop s = Run_loop_raised \<Longrightarrow>
   run_loop s' = Run_loop_raised \<and> launches s' = launches s \<and> spawned s' = spawned s"
proof (induction as arbitrary: s)
  case Nil
  then show ?case by simp
next
  case (Cons a as)
  from Cons.prems obtain s1 where a: "step a s = Some s1" and r: "run as s1 = Some s'"
    by (auto split: option.splits)
  from raised_stays [OF Cons.prems(2) a] Cons.IH [OF r] show ?case by simp
qed

text \<open>
  C2, as the code has it. When \<^verbatim>\<open>open_process\<close> raises, \<^verbatim>\<open>cleanup_dead_process\<close> is
  still called (here with the old value of \<^verbatim>\<open>_process\<close>), and when it has returned the
  exception leaves \<^verbatim>\<open>_run_loop\<close>. From then on, whatever happens, the run loop stays
  ended: nothing is launched again.
\<close>

theorem spawn_failure_cleans_up_and_raises:
  assumes "run_loop s = Open_process e"
    and "run as (s\<lparr>cleaned_up := cleaned_up s @ [process s], run_loop := Run_loop_raised\<rparr>)
           = Some s'"
  shows "step (Open_process_result False) s
           = Some (s\<lparr>cleaned_up := cleaned_up s @ [process s], run_loop := Cleanup True\<rparr>) \<and>
         step Run_loop (s\<lparr>cleaned_up := cleaned_up s @ [process s], run_loop := Cleanup True\<rparr>)
           = Some (s\<lparr>cleaned_up := cleaned_up s @ [process s], run_loop := Run_loop_raised\<rparr>) \<and>
         run_loop s' = Run_loop_raised \<and> launches s' = launches s \<and> spawned s' = spawned s"
proof -
  have "step (Open_process_result False) s
          = Some (s\<lparr>cleaned_up := cleaned_up s @ [process s], run_loop := Cleanup True\<rparr>)"
    using assms(1) by (simp add: open_process_returns_def)
  moreover
  have "step Run_loop (s\<lparr>cleaned_up := cleaned_up s @ [process s], run_loop := Cleanup True\<rparr>)
          = Some (s\<lparr>cleaned_up := cleaned_up s @ [process s], run_loop := Run_loop_raised\<rparr>)"
    by (simp add: run_loop_resumes_def)
  moreover
  from raised_stays_run [OF assms(2)]
  have "run_loop s' = Run_loop_raised \<and> launches s' = launches s \<and> spawned s' = spawned s"
    by simp
  ultimately show ?thesis by simp
qed

theorem spawn_failure_cleans_up_and_raises_witness:
  "step (Open_process_result False)
     (the (run [Use_enters, Run_loop, Clock 10, Run_loop, Run_loop] (init [] [] 2 0)))
     = Some ((the (run [Use_enters, Run_loop, Clock 10, Run_loop, Run_loop] (init [] [] 2 0)))
               \<lparr>cleaned_up := [None], run_loop := Cleanup True\<rparr>) \<and>
   step Run_loop
     ((the (run [Use_enters, Run_loop, Clock 10, Run_loop, Run_loop] (init [] [] 2 0)))
        \<lparr>cleaned_up := [None], run_loop := Cleanup True\<rparr>)
     = Some ((the (run [Use_enters, Run_loop, Clock 10, Run_loop, Run_loop] (init [] [] 2 0)))
               \<lparr>cleaned_up := [None], run_loop := Run_loop_raised\<rparr>) \<and>
   run_loop
     (the (run [Clock 40, Use_enters]
             ((the (run [Use_enters, Run_loop, Clock 10, Run_loop, Run_loop] (init [] [] 2 0)))
                \<lparr>cleaned_up := [None], run_loop := Run_loop_raised\<rparr>))) = Run_loop_raised \<and>
   launches
     (the (run [Clock 40, Use_enters]
             ((the (run [Use_enters, Run_loop, Clock 10, Run_loop, Run_loop] (init [] [] 2 0)))
                \<lparr>cleaned_up := [None], run_loop := Run_loop_raised\<rparr>))) = [10]"
proof -
  let ?s = "the (run [Use_enters, Run_loop, Clock 10, Run_loop, Run_loop] (init [] [] 2 0))"
  let ?r = "?s\<lparr>cleaned_up := cleaned_up ?s @ [process ?s], run_loop := Run_loop_raised\<rparr>"
  have pc: "run_loop ?s = Open_process []"
    by (simp add: step_defs init_def child_env_def port_vars_def)
  have f: "cleaned_up ?s @ [process ?s] = [None]" "launches ?s = [10]"
    by (simp_all add: step_defs init_def child_env_def port_vars_def)
  have r: "run [Clock 40, Use_enters] ?r = Some (the (run [Clock 40, Use_enters] ?r))"
    by (simp add: step_defs init_def child_env_def port_vars_def)
  from spawn_failure_cleans_up_and_raises [OF pc r] show ?thesis
    unfolding f by simp
qed

text \<open>
  A client asks for the service, the spawn fails: the cleanup is called once, the run loop
  has ended although the wanted event is set, and 30 seconds later it still cannot be
  resumed.
\<close>

theorem spawn_failure_ends_run_loop:
  "map_option (\<lambda>s. (run_loop s, service_wanted s \<in> events_set s, cleaned_up s, launches s))
     (run [Use_enters, Run_loop, Clock 10, Run_loop, Run_loop, Open_process_result False,
           Run_loop, Clock 40]
        (init [] [] 2 0))
     = Some (Run_loop_raised, True, [None], [10]) \<and>
   run [Use_enters, Run_loop, Clock 10, Run_loop, Run_loop, Open_process_result False,
        Run_loop, Clock 40, Run_loop]
     (init [] [] 2 0) = None"
  by (simp add: step_defs init_def child_env_def port_vars_def)

subsection \<open>What \<^verbatim>\<open>stop\<close> has achieved when it returns\<close>

fun stop_target :: "stop_pc \<Rightarrow> pid option" where
  "stop_target (Stop_signalled p d) = Some p"
| "stop_target (Stop_killed p q) = Some p"
| "stop_target pc = None"

definition timer_ok :: "service \<Rightarrow> timer_pc \<Rightarrow> bool" where
  "timer_ok s t =
     (case t of
        Stopping (Stop_signalled p d) \<Rightarrow> process s = Some p \<or> p \<in> exited s
      | Stopping (Stop_killed p q) \<Rightarrow> p \<in> exited s \<or> q = p
      | _ \<Rightarrow> True)"

definition timers_ok :: "service \<Rightarrow> bool" where
  "timers_ok s = (\<forall>t \<in> set (shutdown_timers s). timer_ok s t)"

lemma timer_ok_mono:
  assumes "timer_ok s t" and "exited s \<subseteq> exited s'"
    and "process s' = process s \<or> (\<forall>p. process s = Some p \<longrightarrow> p \<in> exited s')"
  shows "timer_ok s' t"
  using assms by (auto simp: timer_ok_def split: timer_pc.splits stop_pc.splits)

lemma timers_ok_frame:
  assumes "timers_ok s" and "exited s \<subseteq> exited s'"
    and "process s' = process s \<or> (\<forall>p. process s = Some p \<longrightarrow> p \<in> exited s')"
    and "set (shutdown_timers s') \<subseteq> insert t (set (shutdown_timers s))"
    and "timer_ok s' t"
  shows "timers_ok s'"
  unfolding timers_ok_def
proof
  fix u assume "u \<in> set (shutdown_timers s')"
  with assms(4) have "u = t \<or> u \<in> set (shutdown_timers s)" by blast
  then show "timer_ok s' u"
  proof
    assume "u = t" with assms(5) show ?thesis by simp
  next
    assume "u \<in> set (shutdown_timers s)"
    with assms(1) have "timer_ok s u" by (simp add: timers_ok_def)
    from timer_ok_mono [OF this assms(2,3)] show ?thesis .
  qed
qed

lemma timer_ok_trivial [simp]:
  "timer_ok s Timer_spawned" "timer_ok s (Wanted_wait w d)" "timer_ok s Timer_returned"
  "timer_ok s (Stopping Stop_returned)" "timer_ok s (Stopping Stop_raised)"
  by (simp_all add: timer_ok_def)

lemma timers_ok_same_timers:
  assumes "timers_ok s" and "shutdown_timers s' = shutdown_timers s"
    and "exited s \<subseteq> exited s'"
    and "process s' = process s \<or> (\<forall>p. process s = Some p \<longrightarrow> p \<in> exited s')"
  shows "timers_ok s'"
  by (rule timers_ok_frame [OF assms(1,3,4), of Timer_spawned]) (auto simp: assms(2))

lemma timers_ok_init: "timers_ok (init ps e sig t0)"
  by (simp add: timers_ok_def init_def)

lemma timers_ok_run_loop:
  "loop_inv s \<Longrightarrow> timers_ok s \<Longrightarrow> run_loop_resumes s = Some s' \<Longrightarrow> timers_ok s'"
  by (erule timers_ok_same_timers)
     (auto simp: run_loop_resumes_def loop_inv_def
           split: if_splits option.splits run_loop_pc.splits)

lemma timers_ok_open_process:
  "loop_inv s \<Longrightarrow> timers_ok s \<Longrightarrow> open_process_returns ok s = Some s' \<Longrightarrow> timers_ok s'"
  by (erule timers_ok_same_timers)
     (auto simp: open_process_returns_def loop_inv_def idle_def
           split: if_splits run_loop_pc.splits)

lemma timers_ok_timer_resumed:
  assumes "timers_ok s" and "shutdown_timer_resumes n s = Some s'"
  shows "timers_ok s'"
proof -
  from assms(2) obtain t where
    "exited s' = exited s" "process s' = process s"
    "shutdown_timers s' = (shutdown_timers s)[n := t]" "timer_ok s' t"
    by (auto simp: shutdown_timer_resumes_def stop_resumes_def
             split: if_splits option.splits timer_pc.splits stop_pc.splits)
  then show ?thesis
    using set_update_subset_insert [of "shutdown_timers s" n t]
    by (intro timers_ok_frame [OF assms(1), of s' t]) auto
qed

lemma timers_ok_timer_timed_out:
  assumes "timers_ok s" and "shutdown_timer_times_out n s = Some s'"
  shows "timers_ok s'"
proof -
  from assms(2) have n: "n < length (shutdown_timers s)"
    by (auto simp: shutdown_timer_times_out_def split: if_splits)
  then have "shutdown_timers s ! n \<in> set (shutdown_timers s)" by simp
  with assms(1) have ok: "timer_ok s (shutdown_timers s ! n)" by (simp add: timers_ok_def)
  from assms(2) n ok obtain t where
    "exited s' = exited s" "process s' = process s"
    "shutdown_timers s' = (shutdown_timers s)[n := t]" "timer_ok s' t"
    by (auto simp: shutdown_timer_times_out_def stop_times_out_def stop_def timer_ok_def
             split: if_splits option.splits timer_pc.splits stop_pc.splits)
  then show ?thesis
    using set_update_subset_insert [of "shutdown_timers s" n t]
    by (intro timers_ok_frame [OF assms(1), of s' t]) auto
qed

lemma timers_ok_step:
  assumes "loop_inv s" and "timers_ok s" and "step a s = Some s'"
  shows "timers_ok s'"
proof (cases a)
  case Run_loop
  with assms show ?thesis by (auto intro: timers_ok_run_loop)
next
  case (Open_process_result ok)
  with assms show ?thesis by (auto intro: timers_ok_open_process)
next
  case (Timer_resumes n)
  with assms show ?thesis by (auto intro: timers_ok_timer_resumed)
next
  case (Timer_times_out n)
  with assms show ?thesis by (auto intro: timers_ok_timer_timed_out)
next
  case (Body_ends n)
  with assms(3) show ?thesis
    by (auto simp: body_ends_def split: if_splits
             intro!: timers_ok_frame [OF assms(2), of _ Timer_spawned])
next
  case (Clock t)
  with assms(3) show ?thesis
    by (auto simp: clock_advances_def split: if_splits
             intro!: timers_ok_same_timers [OF assms(2)])
next
  case (Process_exits p)
  with assms(3) show ?thesis
    by (auto simp: process_exits_def split: if_splits
             intro!: timers_ok_same_timers [OF assms(2)])
next
  case (Get_port p r)
  with assms(3) show ?thesis
    by (auto simp: get_port_returns_def split: if_splits option.splits run_loop_pc.splits
             intro!: timers_ok_same_timers [OF assms(2)])
next
  case Use_enters
  with assms(3) show ?thesis
    by (auto simp: use_enters_def intro!: timers_ok_same_timers [OF assms(2)])
next
  case (Use_resumes n)
  with assms(3) show ?thesis
    by (auto simp: use_resumes_def split: if_splits use_pc.splits
             intro!: timers_ok_same_timers [OF assms(2)])
next
  case (Use_cancelled n)
  with assms(3) show ?thesis
    by (auto simp: use_cancelled_def split: if_splits use_pc.splits
             intro!: timers_ok_same_timers [OF assms(2)])
qed

lemma timers_ok_run:
  "run as (init ps e sig t0) = Some s \<Longrightarrow> timers_ok s"
proof -
  assume r: "run as (init ps e sig t0) = Some s"
  have "controller_inv (init ps e sig t0) \<and> timers_ok (init ps e sig t0)"
    by (simp add: controller_inv_def events_fresh_init loop_inv_init timers_ok_init)
  with r have "controller_inv s \<and> timers_ok s"
    by (rule run_invariant)
       (auto simp: controller_inv_def intro: events_fresh_step loop_inv_step timers_ok_step)
  then show ?thesis by simp
qed

text \<open>
  Two facts about \<^verbatim>\<open>stop()\<close> and the reaping of the subprocess. When a call of
  \<^verbatim>\<open>stop()\<close> that found a process returns, that process has exited, and the call itself
  has changed neither \<^verbatim>\<open>_process\<close> nor \<^verbatim>\<open>_service_started\<close> nor any event. The only
  step that takes a process out of \<^verbatim>\<open>_process\<close> is the run loop's, after
  \<^verbatim>\<open>cleanup_dead_process\<close> has returned (lines 114-115); it leaves \<^verbatim>\<open>_process\<close> None and
  a new, unset event in \<^verbatim>\<open>_service_started\<close>. Whether \<^verbatim>\<open>stop()\<close> returns before or after
  that step depends on whether the platform helper \<^verbatim>\<open>cleanup_dead_process\<close> suspends.
\<close>

lemma stop_returns_after_exit:
  assumes "run as (init ps e sig t0) = Some s"
    and "n < length (shutdown_timers s)"
    and "shutdown_timers s ! n = Stopping pc"
    and "stop_target pc = Some p"
    and "step (Timer_resumes n) s = Some s'"
  shows "shutdown_timers s' ! n = Stopping Stop_returned \<and> p \<in> exited s' \<and>
         process s' = process s \<and> service_started s' = service_started s \<and>
         events_set s' = events_set s"
proof -
  from assms(2,3) have "Stopping pc \<in> set (shutdown_timers s)" by (metis nth_mem)
  with timers_ok_run [OF assms(1)] have ok: "timer_ok s (Stopping pc)"
    by (simp add: timers_ok_def)
  from controller_inv_run [OF assms(1)] have li: "loop_inv s" by (simp add: controller_inv_def)
  from assms(4) consider d where "pc = Stop_signalled p d" | q where "pc = Stop_killed p q"
    by (cases pc) auto
  then show ?thesis
  proof cases
    case 1
    with assms(2,3,5) show ?thesis
      by (auto simp: shutdown_timer_resumes_def stop_resumes_def split: if_splits)
  next
    case 2
    with assms(2,3,5) ok li show ?thesis
      by (auto simp: shutdown_timer_resumes_def stop_resumes_def timer_ok_def loop_inv_def
               split: if_splits)
  qed
qed

lemma process_cleared_after_cleanup:
  assumes "events_fresh s" and "loop_inv s" and "step a s = Some s'"
    and "process s = Some p" and "process s' \<noteq> Some p"
  shows "a = Run_loop \<and> run_loop s = Cleanup False \<and> p \<in> exited s \<and>
         process s' = None \<and> service_started s' \<notin> events_set s'"
  using assms
  by (cases a)
     (auto simp: step_defs events_fresh_def loop_inv_def idle_def
           split: if_splits option.splits run_loop_pc.splits use_pc.splits timer_pc.splits
                  stop_pc.splits)

subsection \<open>Decimal strings\<close>

lemma digit_val_digit_char: "d < 10 \<Longrightarrow> digit_val (digit_char d) = Some d"
proof -
  assume "d < 10"
  then have "d \<in> {0, 1, 2, 3, 4, 5, 6, 7, 8, 9}" by auto
  then show ?thesis by (auto simp: digit_val_def digit_char_def)
qed

lemma digit_char_not_minus: "d < 10 \<Longrightarrow> digit_char d \<noteq> CHR ''-''"
proof -
  assume "d < 10"
  then have "d \<in> {0, 1, 2, 3, 4, 5, 6, 7, 8, 9}" by auto
  then show ?thesis by (auto simp: digit_char_def)
qed

lemma nat_of_digits_append:
  "nat_of_digits acc (xs @ ys)
     = (case nat_of_digits acc xs of None \<Rightarrow> None | Some a \<Rightarrow> nat_of_digits a ys)"
  by (induction xs arbitrary: acc) (auto split: option.splits)

lemma nat_of_digits_str_nat: "nat_of_digits 0 (str_nat n) = Some n"
proof (induction n rule: str_nat.induct)
  case (1 n)
  show ?case
  proof (cases "n < 10")
    case True
    then show ?thesis by (subst str_nat.simps) (simp add: digit_val_digit_char)
  next
    case False
    have "n mod 10 < 10" by simp
    from digit_val_digit_char [OF this] False "1.IH" show ?thesis
      by (subst str_nat.simps) (simp add: nat_of_digits_append)
  qed
qed

lemma str_nat_starts_with_digit: "\<exists>c cs. str_nat n = c # cs \<and> c \<noteq> CHR ''-''"
proof (induction n rule: str_nat.induct)
  case (1 n)
  show ?case
  proof (cases "n < 10")
    case True
    then show ?thesis by (subst str_nat.simps) (simp add: digit_char_not_minus)
  next
    case False
    with "1.IH" show ?thesis by (subst str_nat.simps) auto
  qed
qed

lemma int_of_str_str_int: "int_of_str (str_int i) = Some i"
proof -
  obtain c cs where s: "str_nat (nat i) = c # cs" "c \<noteq> CHR ''-''"
    using str_nat_starts_with_digit [of "nat i"] by blast
  obtain c' cs' where s': "str_nat (nat (- i)) = c' # cs'"
    using str_nat_starts_with_digit [of "nat (- i)"] by blast
  show ?thesis
  proof (cases "i < 0")
    case True
    with nat_of_digits_str_nat [of "nat (- i)"] s' show ?thesis
      by (simp add: int_of_str_def str_int_def)
  next
    case False
    with nat_of_digits_str_nat [of "nat i"] s show ?thesis
      by (simp add: int_of_str_def str_int_def)
  qed
qed

lemma str_int_inj: "str_int i = str_int j \<Longrightarrow> i = j"
  by (metis int_of_str_str_int option.inject)

subsection \<open>The environment of the subprocess\<close>

lemma map_of_fold_update:
  "map_of (fold (\<lambda>(k, v). AList.update k v) xs base) = map_of base ++ map_of (rev xs)"
proof (induction xs arbitrary: base)
  case Nil
  then show ?case by simp
next
  case (Cons x xs)
  obtain k v where x: "x = (k, v)" by (cases x)
  show ?case
    by (rule ext) (simp add: x Cons.IH update_conv' map_add_def split: option.splits)
qed

definition port_var :: "int \<times> int \<Rightarrow> string \<times> string" where
  "port_var pa = (''PORT_'' @ str_int (fst pa), str_int (snd pa))"

lemma port_vars_fold:
  "fold (\<lambda>(port, alloc_port). AList.update (''PORT_'' @ str_int port) (str_int alloc_port)) pm acc
     = fold (\<lambda>(k, v). AList.update k v) (map port_var pm) acc"
  by (induction pm arbitrary: acc) (auto simp: port_var_def)

lemma port_vars_alt: "port_vars pm = fold (\<lambda>(k, v). AList.update k v) (map port_var pm) []"
  unfolding port_vars_def by (rule port_vars_fold)

lemma distinct_fold_update:
  "distinct (map fst acc) \<Longrightarrow> distinct (map fst (fold (\<lambda>(k, v). AList.update k v) xs acc))"
  by (induction xs arbitrary: acc) (auto simp: distinct_update)

lemma map_of_rev_distinct: "distinct (map fst xs) \<Longrightarrow> map_of (rev xs) = map_of xs"
proof -
  assume d: "distinct (map fst xs)"
  then have "distinct (map fst (rev xs))" by (simp add: rev_map [symmetric])
  from map_of_inject_set [OF this d] show ?thesis by simp
qed

lemma map_of_child_env:
  "map_of (child_env base pm) = map_of base ++ map_of (rev (map port_var pm))"
proof -
  have "map_of (port_vars pm) = map_of (rev (map port_var pm))"
    by (simp add: port_vars_alt map_of_fold_update)
  moreover have "distinct (map fst (port_vars pm))"
    unfolding port_vars_alt by (rule distinct_fold_update) simp
  ultimately have "map_of (rev (port_vars pm)) = map_of (rev (map port_var pm))"
    by (simp add: map_of_rev_distinct)
  then show ?thesis
    by (simp add: child_env_def map_of_fold_update)
qed

lemma port_var_keys_distinct:
  "distinct (map fst pm) \<Longrightarrow> distinct (map fst (rev (map port_var pm)))"
proof -
  assume d: "distinct (map fst pm)"
  have "inj_on (\<lambda>p. ''PORT_'' @ str_int p) (set (map fst pm))"
    by (auto simp: inj_on_def dest: str_int_inj)
  with d have "distinct (map (\<lambda>p. ''PORT_'' @ str_int p) (map fst pm))"
    by (simp only: distinct_map)
  moreover have "map fst (map port_var pm) = map (\<lambda>p. ''PORT_'' @ str_int p) (map fst pm)"
    by (simp add: port_var_def)
  ultimately have "distinct (map fst (map port_var pm))" by (simp only:)
  then show ?thesis by (simp only: rev_map [symmetric] distinct_rev)
qed

lemma child_env_port:
  assumes "distinct (map fst pm)" and "(P, a) \<in> set pm"
  shows "map_of (child_env base pm) (''PORT_'' @ str_int P) = Some (str_int a)"
proof -
  from assms(2) have "(''PORT_'' @ str_int P, str_int a) \<in> set (rev (map port_var pm))"
    by (force simp: port_var_def)
  with port_var_keys_distinct [OF assms(1)]
  have "map_of (rev (map port_var pm)) (''PORT_'' @ str_int P) = Some (str_int a)"
    by (simp only: map_of_eq_Some_iff)
  then show ?thesis by (simp add: map_of_child_env map_add_def)
qed

lemma child_env_other:
  assumes "k \<notin> (\<lambda>p. ''PORT_'' @ str_int p) ` fst ` set pm"
  shows "map_of (child_env base pm) k = map_of base k"
proof -
  have "fst ` set (rev (map port_var pm)) = (\<lambda>p. ''PORT_'' @ str_int p) ` fst ` set pm"
    by (force simp: port_var_def)
  with assms have "map_of (rev (map port_var pm)) k = None"
    by (simp only: map_of_eq_None_iff) simp
  then show ?thesis by (simp add: map_of_child_env map_add_def)
qed

lemma descriptor_step:
  "step a s = Some s' \<Longrightarrow> ports s' = ports s \<and> env s' = env s \<and> signal s' = signal s"
  by (cases a)
     (auto simp: step_defs
           split: if_splits option.splits run_loop_pc.splits use_pc.splits timer_pc.splits
                  stop_pc.splits)

lemma descriptor_run:
  "run as (init ps e sig t0) = Some s \<Longrightarrow> ports s = ps \<and> env s = e \<and> signal s = sig"
proof -
  assume r: "run as (init ps e sig t0) = Some s"
  have "ports (init ps e sig t0) = ps \<and> env (init ps e sig t0) = e \<and>
        signal (init ps e sig t0) = sig"
    by (simp add: init_def)
  with r show ?thesis
    by (rule run_invariant) (auto dest: descriptor_step)
qed

text \<open>
  C8, as the code has it. Whenever the run loop calls \<^verbatim>\<open>open_process\<close>, the \<^verbatim>\<open>env\<close>
  argument maps \<^verbatim>\<open>PORT_<P>\<close>, for every port \<open>P\<close> of the descriptor, to the decimal
  string of the port that \<^verbatim>\<open>_port_map\<close> holds for \<open>P\<close>; that string reads back as the
  same number, which lies between 1 and 65535, the range of the ports the operating
  system assigns; every other variable has the value of the descriptor's \<^verbatim>\<open>env\<close>.
  Nothing makes the ports of one launch differ from each other.
\<close>

theorem child_env_has_port_variables:
  assumes "run as (init ps e sig t0) = Some s"
    and "run_loop s = Open_process child"
    and "P \<in> set ps"
    and "k \<notin> (\<lambda>p. ''PORT_'' @ str_int p) ` set ps"
  shows "(\<exists>pm a. port_map s = Some pm \<and> map_of pm P = Some a \<and>
            map_of child (''PORT_'' @ str_int P) = Some (str_int a) \<and>
            int_of_str (str_int a) = Some a \<and> 1 \<le> a \<and> a \<le> 65535) \<and>
         map_of child k = map_of e k"
proof -
  from descriptor_run [OF assms(1)] have d: "ports s = ps" "env s = e" by simp_all
  from controller_inv_run [OF assms(1)] have "loop_inv s" by (simp add: controller_inv_def)
  with assms(2) obtain pm where pa: "ports_allocated s [] pm" and c: "child = child_env e pm"
    by (auto simp: loop_inv_def d)
  from pa have pm: "port_map s = Some pm" and dist: "distinct (map fst pm)"
    and keys: "fst ` set pm = set ps"
    and range: "\<forall>a \<in> snd ` set pm. 1 \<le> a \<and> a \<le> 65535"
    unfolding ports_allocated_def d by simp_all
  from keys assms(3) obtain a where a: "(P, a) \<in> set pm" by force
  with dist have look: "map_of pm P = Some a" by simp
  from a range have r: "1 \<le> a \<and> a \<le> 65535" by force
  from child_env_port [OF dist a] have v: "map_of child (''PORT_'' @ str_int P) = Some (str_int a)"
    by (simp add: c)
  from assms(4) keys have "k \<notin> (\<lambda>p. ''PORT_'' @ str_int p) ` fst ` set pm" by simp
  from child_env_other [OF this] have o: "map_of child k = map_of e k" by (simp add: c)
  from pm look v r o int_of_str_str_int [of a] show ?thesis by blast
qed

theorem child_env_has_port_variables_witness:
  "map_of [(''HOME'', ''/root''), (''PORT_8080'', ''50000''), (''PORT_8081'', ''50001'')] ''PORT_8080''
     = Some ''50000'' \<and>
   int_of_str ''50000'' = Some 50000 \<and>
   map_of [(''HOME'', ''/root''), (''PORT_8080'', ''50000''), (''PORT_8081'', ''50001'')] ''HOME''
     = map_of [(''HOME'', ''/root'')] ''HOME''"
proof -
  let ?as = "[Use_enters, Run_loop, Clock 10, Run_loop, Get_port 8080 (Some 50000),
              Get_port 8081 (Some 50001), Run_loop]"
  let ?i = "init [8080, 8081] [(''HOME'', ''/root'')] 2 0"
  let ?s = "the (run ?as ?i)"
  let ?child = "[(''HOME'', ''/root''), (''PORT_8080'', ''50000''), (''PORT_8081'', ''50001'')]"
  have str: "str_int 8080 = ''8080''" "str_int 8081 = ''8081''"
    "str_int 50000 = ''50000''" "str_int 50001 = ''50001''"
    by (simp_all add: str_int_def str_nat.simps digit_char_def)
  have r: "run ?as ?i = Some ?s"
    by (simp add: step_defs init_def)
  have pc: "run_loop ?s = Open_process ?child"
    by (simp add: step_defs init_def child_env_def port_vars_def str)
  have pm: "port_map ?s = Some [(8080, 50000), (8081, 50001)]"
    by (simp add: step_defs init_def)
  have P: "(8080::int) \<in> set [8080, 8081]" by simp
  have k: "''HOME'' \<notin> (\<lambda>p. ''PORT_'' @ str_int p) ` set [8080, 8081]" by simp
  from child_env_has_port_variables [OF r pc P k] show ?thesis
    unfolding pm by (auto simp: str)
qed

text \<open>
  The operating system assigns 50000 to the first probe socket, which is closed again,
  and 50000 to the second: both variables of this launch carry the same port.
\<close>

theorem two_ports_same_backend:
  "map_option run_loop
     (run [Use_enters, Run_loop, Clock 10, Run_loop, Get_port 8080 (Some 50000),
           Get_port 8081 (Some 50000), Run_loop]
        (init [8080, 8081] [] 2 0))
     = Some (Open_process [(''PORT_8080'', ''50000''), (''PORT_8081'', ''50000'')])"
  by (simp add: step_defs init_def child_env_def port_vars_def str_int_def str_nat.simps
        digit_char_def)

subsection \<open>Leaving \<^verbatim>\<open>use\<close> while another caller enters\<close>

text \<open>
  C1. The last user leaves its block: line 148 brings \<^verbatim>\<open>_users\<close> to 0 and line 156
  awaits \<^verbatim>\<open>nursery.start\<close>, which suspends the leaving task until the new timer task has
  run. The scheduler may resume another task first. Here a second caller enters
  \<^verbatim>\<open>use()\<close> after the decrement and before the timer's first run: it sets the old wanted
  event, which is set already, and finds the started event set. The timer then installs a
  new, unset wanted event that nobody sets, the second caller counts itself, and 600
  seconds later the timer calls \<^verbatim>\<open>stop()\<close>: the subprocess is signalled while
  \<^verbatim>\<open>_users\<close> is 1 and the event in \<^verbatim>\<open>_service_wanted\<close> is unset.
\<close>

theorem entry_between_decrement_and_new_wanted:
  "map_option (\<lambda>s. (users s, use_scopes s, shutdown_timers s, service_wanted s))
     (run [Use_enters, Run_loop, Clock 10, Run_loop, Run_loop, Open_process_result True,
           Use_resumes 0, Body_ends 0, Use_enters]
        (init [] [] 2 0))
     = Some (0, [Start_timer 0, Started_wait 1], [Timer_spawned], 0) \<and>
   map_option (\<lambda>s. (users s, use_scopes s, shutdown_timers s, service_wanted s,
                     service_wanted s \<in> events_set s, delivered s, process s))
     (run [Use_enters, Run_loop, Clock 10, Run_loop, Run_loop, Open_process_result True,
           Use_resumes 0, Body_ends 0, Use_enters, Timer_resumes 0, Use_resumes 0,
           Use_resumes 1, Clock 610, Timer_times_out 0]
        (init [] [] 2 0))
     = Some (1, [Use_left, In_body], [Stopping (Stop_signalled 0 615)], 2, False,
             [Send_signal 0 2], Some 0)"
  by (simp add: step_defs init_def child_env_def port_vars_def)

text \<open>
  What does hold: the leaving caller is resumed from line 156 only when the timer task has
  had its first run, and that run ends with a new, unset event in \<^verbatim>\<open>_service_wanted\<close>.
\<close>

lemma timer_first_run_installs_new_wanted:
  assumes "events_fresh s" and "n < length (shutdown_timers s)"
    and "shutdown_timers s ! n = Timer_spawned"
    and "step (Timer_resumes n) s = Some s'"
  shows "service_wanted s' = events_made s \<and> service_wanted s' \<notin> events_set s' \<and>
         service_wanted s' \<noteq> service_wanted s \<and> shutdown_timers s' ! n \<noteq> Timer_spawned"
  using assms by (auto simp: shutdown_timer_resumes_def events_fresh_def)

lemma use_left_after_timer_started:
  assumes "n < length (use_scopes s)" and "use_scopes s ! n = Start_timer t"
    and "step (Use_resumes n) s = Some s'"
  shows "t < length (shutdown_timers s) \<and> shutdown_timers s ! t \<noteq> Timer_spawned"
  using assms by (auto simp: use_resumes_def split: if_splits)

end
